theory Spec2Isabelle
  imports Complex_Main "HOL-Library.Word"
begin

unbundle bit_operations_syntax

section \<open>The playback worklet (public/audio-processor.js)\<close>

text \<open>
  The worklet keeps a \<open>Float32Array\<close> of samples and a read position. The samples are only
  copied, never computed with, and every value the program itself produces is a 16-bit
  integer divided by \<open>32768\<close>, which a 32-bit float holds exactly; a sample is a real number
  here.
\<close>

type_synonym float32 = real

record AudioProcessor =
  buffer :: "float32 list"
  position :: nat

text \<open>\<open>new Float32Array(n)\<close>: \<open>n\<close> zeros.\<close>

definition new_Float32Array :: "nat \<Rightarrow> float32 list" where
  "new_Float32Array n = replicate n 0"

text \<open>\<open>target.set(source, offset)\<close> of a typed array, for a source that fits.\<close>

definition typed_set :: "'a list \<Rightarrow> 'a list \<Rightarrow> nat \<Rightarrow> 'a list" where
  "typed_set target source offset =
     take offset target @ source @ drop (offset + length source) target"

definition constructor :: AudioProcessor where
  "constructor = \<lparr>buffer = new_Float32Array 0, position = 0\<rparr>"

text \<open>The object posted to the worklet's port: \<open>event.data\<close>, with its \<open>type\<close> and \<open>audio\<close>
  (empty when the message has none).\<close>

record port_data =
  mtype :: string
  audio :: "float32 list"

definition port_onmessage :: "AudioProcessor \<Rightarrow> port_data \<Rightarrow> AudioProcessor" where
  "port_onmessage this d =
     (if mtype d = ''data'' then
        (let newBuffer = new_Float32Array (length (buffer this) + length (audio d));
             newBuffer = typed_set newBuffer (buffer this) 0;
             newBuffer = typed_set newBuffer (audio d) (length (buffer this))
         in this\<lparr>buffer := newBuffer\<rparr>)
      else if mtype d = ''clear'' then
        this\<lparr>buffer := new_Float32Array 0, position := 0\<rparr>
      else this)"

text \<open>The copy loop of \<open>process\<close>: \<open>for (i = 0; i < output.length; i++) output[i] =
  buffer[position + i]\<close>.\<close>

function copy_loop :: "float32 list \<Rightarrow> nat \<Rightarrow> float32 list \<Rightarrow> nat \<Rightarrow> float32 list" where
  "copy_loop buf pos output i =
     (if i < length output then copy_loop buf pos (output[i := buf ! (pos + i)]) (Suc i)
      else output)"
  by pat_completeness auto
termination
  by (relation "measure (\<lambda>(buf, pos, output, i). length output - i)") auto

declare copy_loop.simps [simp del]

text \<open>
  \<open>process(inputs, outputs, parameters)\<close>. \<open>sampleRate\<close> is the global of the worklet scope,
  a parameter here; \<open>output\<close> is \<open>outputs[0][0]\<close> as the audio system hands it over. The result
  is the processor after the call, the output block after the call and the messages posted
  to the main thread. The subtraction is the one of the source, on integers.
\<close>

definition process ::
  "nat \<Rightarrow> AudioProcessor \<Rightarrow> float32 list \<Rightarrow> AudioProcessor \<times> float32 list \<times> string list" where
  "process sampleRate this output =
     (if int (length (buffer this)) - int (position this) < int (length output) then
        (this, output, [''needData''])
      else
        (let output' = copy_loop (buffer this) (position this) output 0;
             this = this\<lparr>position := position this + length output\<rparr>;
             this = (if position this > sampleRate * 2
                     then this\<lparr>buffer := drop (position this) (buffer this), position := 0\<rparr>
                     else this)
         in (this, output', [])))"

text \<open>The three operations of the playback buffer, as the main thread and the audio
  system reach them.\<close>

definition append :: "AudioProcessor \<Rightarrow> float32 list \<Rightarrow> AudioProcessor" where
  "append this samples = port_onmessage this \<lparr>mtype = ''data'', audio = samples\<rparr>"

definition flush :: "AudioProcessor \<Rightarrow> AudioProcessor" where
  "flush this = port_onmessage this \<lparr>mtype = ''clear'', audio = []\<rparr>"

text \<open>\<open>pull n\<close>: one device quantum, with a zero-filled output block of \<open>n\<close> samples.\<close>

definition pull :: "nat \<Rightarrow> AudioProcessor \<Rightarrow> nat \<Rightarrow> AudioProcessor \<times> float32 list \<times> string list" where
  "pull sampleRate this n = process sampleRate this (new_Float32Array n)"

definition unread :: "AudioProcessor \<Rightarrow> float32 list" where
  "unread this = drop (position this) (buffer this)"

definition cursor_ok :: "AudioProcessor \<Rightarrow> bool" where
  "cursor_ok this \<longleftrightarrow> position this \<le> length (buffer this)"

text \<open>The same \<open>process\<close> with the clean-up step left out: the buffer is never cut and the
  position only grows. It is not part of the program; the compaction is compared with it.\<close>

definition process_nocompact ::
  "AudioProcessor \<Rightarrow> float32 list \<Rightarrow> AudioProcessor \<times> float32 list \<times> string list" where
  "process_nocompact this output =
     (if int (length (buffer this)) - int (position this) < int (length output) then
        (this, output, [''needData''])
      else
        (let output' = copy_loop (buffer this) (position this) output 0;
             this = this\<lparr>position := position this + length output\<rparr>
         in (this, output', [])))"

text \<open>A schedule of buffer operations, and what its pulls deliver: for every \<open>Pull\<close>, in
  order, the output block and the messages posted.\<close>

datatype buffer_op = Append "float32 list" | Flush | Pull nat

fun run :: "nat \<Rightarrow> AudioProcessor \<Rightarrow> buffer_op list \<Rightarrow> (float32 list \<times> string list) list" where
  "run sampleRate this [] = []"
| "run sampleRate this (Append samples # ops) = run sampleRate (append this samples) ops"
| "run sampleRate this (Flush # ops) = run sampleRate (flush this) ops"
| "run sampleRate this (Pull n # ops) =
     (case pull sampleRate this n of
        (this', out, posted) \<Rightarrow> (out, posted) # run sampleRate this' ops)"

fun run_nocompact :: "AudioProcessor \<Rightarrow> buffer_op list \<Rightarrow> (float32 list \<times> string list) list" where
  "run_nocompact this [] = []"
| "run_nocompact this (Append samples # ops) = run_nocompact (append this samples) ops"
| "run_nocompact this (Flush # ops) = run_nocompact (flush this) ops"
| "run_nocompact this (Pull n # ops) =
     (case process_nocompact this (new_Float32Array n) of
        (this', out, posted) \<Rightarrow> (out, posted) # run_nocompact this' ops)"

section \<open>The PCM codec (src/Content.js)\<close>

type_synonym int16 = "16 word"
type_synonym byte = "8 word"

text \<open>
  Storing a number into an \<open>Int16Array\<close> element converts it with \<open>ToInt16\<close>: the fraction is
  cut off towards zero, the integer is taken modulo \<open>2 ^ 16\<close> and read as two's complement.
  The products of \<open>floatToPcm16\<close> are exact in double precision (a 24-bit significand times a
  16-bit constant), so the real product is the value that is converted. Samples are finite
  numbers; \<open>NaN\<close>, which the conversion would store as 0, is outside the model.
\<close>

definition js_truncate :: "real \<Rightarrow> int" where
  "js_truncate x = (if x < 0 then \<lceil>x\<rceil> else \<lfloor>x\<rfloor>)"

definition ToInt16 :: "real \<Rightarrow> int16" where
  "ToInt16 x = word_of_int (js_truncate x)"

definition new_Int16Array :: "nat \<Rightarrow> int16 list" where
  "new_Int16Array n = replicate n 0"

function floatToPcm16_loop :: "float32 list \<Rightarrow> int16 list \<Rightarrow> nat \<Rightarrow> int16 list" where
  "floatToPcm16_loop input output i =
     (if i < length input then
        (let s = max (-1) (min 1 (input ! i))
         in floatToPcm16_loop input
              (output[i := ToInt16 (if s < 0 then s * 32768 else s * 32767)]) (Suc i))
      else output)"
  by pat_completeness auto
termination
  by (relation "measure (\<lambda>(input, output, i). length input - i)") auto

declare floatToPcm16_loop.simps [simp del]

definition floatToPcm16 :: "float32 list \<Rightarrow> int16 list" where
  "floatToPcm16 input = floatToPcm16_loop input (new_Int16Array (length input)) 0"

text \<open>\<open>dataView.getInt16(byteOffset, true)\<close> and \<open>view.setInt16(byteOffset, value, true)\<close>:
  little-endian, the low byte at the lower offset.\<close>

definition getInt16 :: "byte list \<Rightarrow> nat \<Rightarrow> int16" where
  "getInt16 bytes byteOffset = word_cat (bytes ! (byteOffset + 1)) (bytes ! byteOffset)"

definition setInt16 :: "byte list \<Rightarrow> nat \<Rightarrow> int16 \<Rightarrow> byte list" where
  "setInt16 bytes byteOffset v =
     bytes[byteOffset := ucast v, byteOffset + 1 := ucast (drop_bit 8 v)]"

function pcm16ToFloat_loop :: "byte list \<Rightarrow> float32 list \<Rightarrow> nat \<Rightarrow> float32 list" where
  "pcm16ToFloat_loop buf float32 i =
     (if i < length float32 then
        (let int16 = getInt16 buf (i * 2)
         in pcm16ToFloat_loop buf (float32[i := real_of_int (sint int16) / 32768]) (Suc i))
      else float32)"
  by pat_completeness auto
termination
  by (relation "measure (\<lambda>(buf, float32, i). length float32 - i)") auto

declare pcm16ToFloat_loop.simps [simp del]

text \<open>\<open>new Float32Array(buffer.byteLength / 2)\<close>: the length argument of a typed array is cut
  to an integer, so an odd byte count gives \<open>byteLength div 2\<close> elements.\<close>

definition pcm16ToFloat :: "byte list \<Rightarrow> float32 list" where
  "pcm16ToFloat buf = pcm16ToFloat_loop buf (new_Float32Array (length buf div 2)) 0"

text \<open>The byte buffer of the capture path and the \<open>forEach\<close> that fills it.\<close>

definition new_ArrayBuffer :: "nat \<Rightarrow> byte list" where
  "new_ArrayBuffer n = replicate n 0"

fun forEach_setInt16 :: "int16 list \<Rightarrow> nat \<Rightarrow> byte list \<Rightarrow> byte list" where
  "forEach_setInt16 [] index view = view"
| "forEach_setInt16 (v # rest) index view =
     forEach_setInt16 rest (Suc index) (setInt16 view (index * 2) v)"

text \<open>A frame through both directions of the codec: quantised and laid out in bytes as
  the capture path does, then read back as the playback path does.\<close>

definition round_trip :: "float32 list \<Rightarrow> float32 list" where
  "round_trip input =
     (let pcm16 = floatToPcm16 input;
          buf = new_ArrayBuffer (length pcm16 * 2);
          bytes = forEach_setInt16 pcm16 0 buf
      in pcm16ToFloat bytes)"

section \<open>The platform's base64 functions\<close>

text \<open>
  \<open>btoa\<close> and \<open>atob\<close> are functions of the browser. \<open>btoa\<close> is the base64 encoding of RFC 4648
  with padding; \<open>atob\<close> is the forgiving decoder of the HTML standard: ASCII whitespace is
  removed, one or two padding characters are removed when the length is a multiple of four,
  a length of one modulo four or a character outside the alphabet raises
  \<open>InvalidCharacterError\<close>, and the bits left over after the last whole byte are dropped.
  The binary strings on both sides are byte sequences here.
\<close>

datatype DOMException = InvalidCharacterError

definition b64_alphabet :: string where
  "b64_alphabet = ''ABCDEFGHIJKLMNOPQRSTUVWXYZabcdefghijklmnopqrstuvwxyz0123456789+/''"

definition b64_char :: "nat \<Rightarrow> char" where
  "b64_char i = b64_alphabet ! i"

definition b64_val :: "char \<Rightarrow> nat" where
  "b64_val c = length (takeWhile (\<lambda>d. d \<noteq> c) b64_alphabet)"

fun b64_body :: "byte list \<Rightarrow> string" where
  "b64_body (a # b # c # rest) =
     (let n = unat a * 65536 + unat b * 256 + unat c
      in [b64_char (n div 262144), b64_char (n div 4096 mod 64),
          b64_char (n div 64 mod 64), b64_char (n mod 64)]) @ b64_body rest"
| "b64_body [a, b] =
     (let n = unat a * 1024 + unat b * 4
      in [b64_char (n div 4096), b64_char (n div 64 mod 64), b64_char (n mod 64)])"
| "b64_body [a] =
     (let n = unat a * 16 in [b64_char (n div 64), b64_char (n mod 64)])"
| "b64_body [] = []"

definition btoa :: "byte list \<Rightarrow> string" where
  "btoa bytes = b64_body bytes @ replicate ((3 - length bytes mod 3) mod 3) (CHR ''='')"

fun b64_decode :: "nat list \<Rightarrow> byte list" where
  "b64_decode (a # b # c # d # rest) =
     (let n = a * 262144 + b * 4096 + c * 64 + d
      in [of_nat (n div 65536), of_nat (n div 256 mod 256), of_nat (n mod 256)])
     @ b64_decode rest"
| "b64_decode [a, b, c] =
     (let n = a * 4096 + b * 64 + c in [of_nat (n div 1024), of_nat (n div 4 mod 256)])"
| "b64_decode [a, b] = (let n = a * 64 + b in [of_nat (n div 16)])"
| "b64_decode [a] = []"
| "b64_decode [] = []"

definition ascii_whitespace :: "char list" where
  "ascii_whitespace = [char_of (9 :: nat), char_of (10 :: nat), char_of (12 :: nat),
                       char_of (13 :: nat), char_of (32 :: nat)]"

definition strip_padding :: "string \<Rightarrow> string" where
  "strip_padding d =
     (if length d mod 4 = 0 then
        (if 2 \<le> length d \<and> drop (length d - 2) d = ''=='' then take (length d - 2) d
         else if 1 \<le> length d \<and> drop (length d - 1) d = ''='' then take (length d - 1) d
         else d)
      else d)"

definition atob :: "string \<Rightarrow> DOMException + byte list" where
  "atob encoded =
     (let d = filter (\<lambda>c. c \<notin> set ascii_whitespace) encoded;
          d = strip_padding d
      in if length d mod 4 = 1 then Inl InvalidCharacterError
         else if \<exists>c \<in> set d. c \<notin> set b64_alphabet then Inl InvalidCharacterError
         else Inr (b64_decode (map b64_val d)))"

section \<open>The session controller (src/Content.js)\<close>

datatype readyState = CONNECTING | OPEN | CLOSING | CLOSED

record WebSocket =
  readyState :: readyState
  sent :: "string list"

datatype console_entry = console_log string | console_error string DOMException

record message =
  isMine :: bool
  msg_text :: string

text \<open>
  The state the handlers of the component read and write: the React state \<open>messages\<close>,
  \<open>isTalking\<close> and \<open>isEngaged\<close>, the worklet behind \<open>audioWorkletNodeRef.current\<close>
  (\<open>None\<close> when it is null), the socket behind \<open>wsRef.current\<close>, and the console.
\<close>

record Content =
  messages :: "message list"
  isTalking :: bool
  isEngaged :: bool
  audioWorkletNodeRef :: "AudioProcessor option"
  wsRef :: "WebSocket option"
  console :: "console_entry list"

text \<open>\<open>audioWorkletNodeRef.current?.port.postMessage(d)\<close>: the message reaches the worklet's
  \<open>port.onmessage\<close>; messages of one port arrive in the order they were posted.\<close>

definition postMessage :: "Content \<Rightarrow> port_data \<Rightarrow> Content" where
  "postMessage st d =
     st\<lparr>audioWorkletNodeRef := map_option (\<lambda>this. port_onmessage this d) (audioWorkletNodeRef st)\<rparr>"

text \<open>The handler of the messages the worklet posts to the main thread.\<close>

definition node_onmessage :: "Content \<Rightarrow> string \<Rightarrow> Content" where
  "node_onmessage st d = (if d = ''needData'' then st\<lparr>isTalking := False\<rparr> else st)"

text \<open>The parsed downlink message \<open>chunk = JSON.parse(event.data)\<close>.\<close>

record chunk =
  event :: string
  data :: string
  speaker :: string

text \<open>
  \<open>wsRef.current.onmessage\<close>. The handler is a closure of the render in which the session
  was engaged, so the \<open>isTalking\<close> it tests is the value of that render: the parameter
  \<open>isTalking0\<close>. An exception of \<open>atob\<close> is caught and logged.
\<close>

definition ws_onmessage :: "bool \<Rightarrow> Content \<Rightarrow> chunk \<Rightarrow> Content" where
  "ws_onmessage isTalking0 st chunk =
     (if event chunk = ''stop'' then
        (let st = st\<lparr>console := console st @ [console_log ''Interruption'']\<rparr>;
             st = postMessage st \<lparr>mtype = ''stop'', audio = []\<rparr>
         in st\<lparr>isTalking := False\<rparr>)
      else if event chunk = ''media'' then
        (case atob (data chunk) of
           Inl error \<Rightarrow>
             st\<lparr>console := console st @ [console_error ''Error processing audio data:'' error]\<rparr>
         | Inr bytes \<Rightarrow>
             (let float32Array = pcm16ToFloat bytes
              in if length float32Array > 0 then
                   (let st = postMessage st \<lparr>mtype = ''data'', audio = float32Array\<rparr>
                    in if \<not> isTalking0 then st\<lparr>isTalking := True\<rparr> else st)
                 else st))
      else if event chunk = ''text'' then
        st\<lparr>messages := messages st @ [\<lparr>isMine = (speaker chunk = ''user''), msg_text = data chunk\<rparr>]\<rparr>
      else st)"

text \<open>\<open>processor.onaudioprocess\<close>: the capture path.\<close>

definition ws_send :: "Content \<Rightarrow> string \<Rightarrow> Content" where
  "ws_send st text_msg = st\<lparr>wsRef := map_option (\<lambda>ws. ws\<lparr>sent := sent ws @ [text_msg]\<rparr>) (wsRef st)\<rparr>"

definition onaudioprocess :: "Content \<Rightarrow> float32 list \<Rightarrow> Content" where
  "onaudioprocess st input =
     (let pcm16 = floatToPcm16 input;
          buf = new_ArrayBuffer (length pcm16 * 2);
          bytes = forEach_setInt16 pcm16 0 buf;
          base64 = btoa bytes
      in if map_option readyState (wsRef st) = Some OPEN then ws_send st base64 else st)"

text \<open>A session in the Active state, as the examples below use it: engaged, the socket
  open, nothing sent or logged, the worklet holding the given samples at position 0.\<close>

definition active_session :: "float32 list \<Rightarrow> bool \<Rightarrow> Content" where
  "active_session samples talking =
     \<lparr>messages = [], isTalking = talking, isEngaged = True,
      audioWorkletNodeRef = Some \<lparr>buffer = samples, position = 0\<rparr>,
      wsRef = Some \<lparr>readyState = OPEN, sent = []\<rparr>, console = []\<rparr>"

text \<open>The little-endian byte layout of a PCM block in the words of the wire format: each
  16-bit value as its low byte followed by its high byte.\<close>

definition le_bytes :: "int16 \<Rightarrow> byte list" where
  "le_bytes v = [of_nat (unat v mod 256), of_nat (unat v div 256)]"

definition pcm_block_bytes :: "int16 list \<Rightarrow> byte list" where
  "pcm_block_bytes block = concat (map le_bytes block)"

section \<open>Properties of the playback worklet\<close>

lemma typed_set_append:
  "typed_set (typed_set (new_Float32Array (length xs + length ys)) xs 0) ys (length xs) = xs @ ys"
  by (simp add: typed_set_def new_Float32Array_def)

lemma port_onmessage_eq:
  "port_onmessage this d =
     (if mtype d = ''data'' then this\<lparr>buffer := buffer this @ audio d\<rparr>
      else if mtype d = ''clear'' then this\<lparr>buffer := [], position := 0\<rparr>
      else this)"
  by (simp add: port_onmessage_def Let_def typed_set_append)
     (simp add: new_Float32Array_def)

lemma append_eq: "append this samples = this\<lparr>buffer := buffer this @ samples\<rparr>"
  by (simp add: append_def port_onmessage_eq)

lemma flush_eq: "flush this = this\<lparr>buffer := [], position := 0\<rparr>"
  by (simp add: flush_def port_onmessage_eq)

lemma copy_loop_length [simp]: "length (copy_loop buf pos out i) = length out"
  by (induction buf pos out i rule: copy_loop.induct)
     (subst copy_loop.simps, simp)

lemma copy_loop_nth:
  "k < length out \<Longrightarrow>
   copy_loop buf pos out i ! k = (if i \<le> k then buf ! (pos + k) else out ! k)"
proof (induction buf pos out i rule: copy_loop.induct)
  case (1 buf pos out i)
  show ?case
  proof (cases "i < length out")
    case True
    have "copy_loop buf pos out i ! k
          = copy_loop buf pos (out[i := buf ! (pos + i)]) (Suc i) ! k"
      using True by (subst copy_loop.simps) simp
    also have "\<dots> = (if Suc i \<le> k then buf ! (pos + k) else out[i := buf ! (pos + i)] ! k)"
      using "1.IH" [OF True] "1.prems" by simp
    also have "\<dots> = (if i \<le> k then buf ! (pos + k) else out ! k)"
      using "1.prems" by (cases "i = k") auto
    finally show ?thesis .
  next
    case False
    then show ?thesis using "1.prems" by (subst copy_loop.simps) simp
  qed
qed

lemma copy_loop_take_drop:
  assumes "pos + length out \<le> length buf"
  shows "copy_loop buf pos out 0 = take (length out) (drop pos buf)"
proof (rule nth_equalityI)
  show "length (copy_loop buf pos out 0) = length (take (length out) (drop pos buf))"
    using assms by simp
next
  fix k assume "k < length (copy_loop buf pos out 0)"
  then have k: "k < length out" by simp
  then show "copy_loop buf pos out 0 ! k = take (length out) (drop pos buf) ! k"
    using assms by (simp add: copy_loop_nth)
qed

lemma process_underrun:
  "length (unread this) < length out \<Longrightarrow> process sr this out = (this, out, [''needData''])"
  by (auto simp: process_def unread_def)

lemma underrun_test_iff:
  "cursor_ok this \<Longrightarrow>
   (int (length (buffer this)) - int (position this) < int (length out))
     = (length (unread this) < length out)"
  by (auto simp: cursor_ok_def unread_def)

lemma process_enough:
  assumes "cursor_ok this" "length out \<le> length (unread this)"
  shows "process sr this out =
     ((if position this + length out > sr * 2
       then this\<lparr>buffer := drop (position this + length out) (buffer this), position := 0\<rparr>
       else this\<lparr>position := position this + length out\<rparr>),
      take (length out) (unread this), [])"
proof -
  have g: "\<not> int (length (buffer this)) - int (position this) < int (length out)"
    using assms by (simp add: underrun_test_iff)
  have c: "copy_loop (buffer this) (position this) out 0 = take (length out) (unread this)"
    using assms by (simp add: copy_loop_take_drop unread_def cursor_ok_def)
  show ?thesis
    unfolding process_def using g c by (simp add: Let_def)
qed

lemma process_nocompact_underrun:
  "length (unread this) < length out \<Longrightarrow>
   process_nocompact this out = (this, out, [''needData''])"
  by (auto simp: process_nocompact_def unread_def)

lemma process_nocompact_enough:
  assumes "cursor_ok this" "length out \<le> length (unread this)"
  shows "process_nocompact this out =
     (this\<lparr>position := position this + length out\<rparr>, take (length out) (unread this), [])"
proof -
  have g: "\<not> int (length (buffer this)) - int (position this) < int (length out)"
    using assms by (simp add: underrun_test_iff)
  have c: "copy_loop (buffer this) (position this) out 0 = take (length out) (unread this)"
    using assms by (simp add: copy_loop_take_drop unread_def cursor_ok_def)
  show ?thesis
    unfolding process_nocompact_def using g c by (simp add: Let_def)
qed

lemma unread_process_enough:
  assumes "cursor_ok this" "length out \<le> length (unread this)"
  shows "unread (fst (process sr this out)) = drop (length out) (unread this)"
  using assms by (auto simp: process_enough unread_def cursor_ok_def add.commute)

lemma unread_process_nocompact_enough:
  assumes "cursor_ok this" "length out \<le> length (unread this)"
  shows "unread (fst (process_nocompact this out)) = drop (length out) (unread this)"
  using assms by (auto simp: process_nocompact_enough unread_def cursor_ok_def add.commute)

lemma cursor_ok_process: "cursor_ok this \<Longrightarrow> cursor_ok (fst (process sr this out))"
proof (cases "length (unread this) < length out")
  case True
  assume "cursor_ok this"
  then show ?thesis using True by (simp add: process_underrun)
next
  case False
  assume "cursor_ok this"
  then show ?thesis using False
    by (auto simp: process_enough unread_def cursor_ok_def)
qed

lemma cursor_ok_process_nocompact:
  "cursor_ok this \<Longrightarrow> cursor_ok (fst (process_nocompact this out))"
proof (cases "length (unread this) < length out")
  case True
  assume "cursor_ok this"
  then show ?thesis using True by (simp add: process_nocompact_underrun)
next
  case False
  assume "cursor_ok this"
  then show ?thesis using False
    by (auto simp: process_nocompact_enough unread_def cursor_ok_def)
qed

lemma cursor_ok_port_onmessage: "cursor_ok this \<Longrightarrow> cursor_ok (port_onmessage this d)"
  by (simp add: port_onmessage_eq cursor_ok_def)

lemma unread_append: "cursor_ok this \<Longrightarrow> unread (append this samples) = unread this @ samples"
  by (simp add: append_eq unread_def cursor_ok_def)

lemma cursor_ok_append: "cursor_ok this \<Longrightarrow> cursor_ok (append this samples)"
  by (simp add: append_eq cursor_ok_def)

lemma cursor_ok_flush: "cursor_ok (flush this)"
  by (simp add: flush_eq cursor_ok_def)

lemma unread_flush: "unread (flush this) = []"
  by (simp add: flush_eq unread_def)

text \<open>What a pull delivers depends on the unread samples only.\<close>

lemma pull_vs_nocompact:
  assumes "cursor_ok a" "cursor_ok b" "unread a = unread b"
  shows "snd (process sr a out) = snd (process_nocompact b out)"
    and "unread (fst (process sr a out)) = unread (fst (process_nocompact b out))"
proof -
  show "snd (process sr a out) = snd (process_nocompact b out)"
  proof (cases "length (unread a) < length out")
    case True
    then show ?thesis using assms by (simp add: process_underrun process_nocompact_underrun)
  next
    case False
    then show ?thesis using assms by (simp add: process_enough process_nocompact_enough)
  qed
  show "unread (fst (process sr a out)) = unread (fst (process_nocompact b out))"
  proof (cases "length (unread a) < length out")
    case True
    then show ?thesis using assms by (simp add: process_underrun process_nocompact_underrun)
  next
    case False
    then show ?thesis using assms
      by (simp add: unread_process_enough unread_process_nocompact_enough)
  qed
qed

lemma run_vs_nocompact:
  "cursor_ok a \<Longrightarrow> cursor_ok b \<Longrightarrow> unread a = unread b \<Longrightarrow>
   run sr a ops = run_nocompact b ops"
proof (induction ops arbitrary: a b)
  case Nil
  then show ?case by simp
next
  case (Cons op ops)
  show ?case
  proof (cases op)
    case (Append xs)
    have "run sr (append a xs) ops = run_nocompact (append b xs) ops"
      using Cons.prems by (intro Cons.IH) (simp_all add: cursor_ok_append unread_append)
    then show ?thesis using Append by simp
  next
    case Flush
    have "run sr (flush a) ops = run_nocompact (flush b) ops"
      by (intro Cons.IH) (simp_all add: cursor_ok_flush unread_flush)
    then show ?thesis using Flush by simp
  next
    case (Pull n)
    let ?out = "new_Float32Array n"
    have s: "snd (process sr a ?out) = snd (process_nocompact b ?out)"
      and u: "unread (fst (process sr a ?out)) = unread (fst (process_nocompact b ?out))"
      using Cons.prems by (rule pull_vs_nocompact)+
    have "run sr (fst (process sr a ?out)) ops = run_nocompact (fst (process_nocompact b ?out)) ops"
      using Cons.prems u by (intro Cons.IH) (simp_all add: cursor_ok_process cursor_ok_process_nocompact)
    then show ?thesis using Pull s
      by (simp add: pull_def split_beta)
  qed
qed

text \<open>A schedule of pulls that the unread samples can serve delivers them in order.\<close>

lemma run_pulls:
  "cursor_ok this \<Longrightarrow> sum_list ns \<le> length (unread this) \<Longrightarrow>
   concat (map fst (run sr this (map Pull ns))) = take (sum_list ns) (unread this) \<and>
   map (\<lambda>r. length (fst r)) (run sr this (map Pull ns)) = ns \<and>
   map snd (run sr this (map Pull ns)) = replicate (length ns) []"
proof (induction ns arbitrary: this)
  case Nil
  then show ?case by simp
next
  case (Cons n ns)
  let ?out = "new_Float32Array n"
  let ?this' = "fst (process sr this ?out)"
  have len: "length ?out = n" by (simp add: new_Float32Array_def)
  have n: "length ?out \<le> length (unread this)" using Cons.prems len by simp
  have p: "process sr this ?out = (?this', take n (unread this), [])"
    using process_enough [OF Cons.prems(1) n, of sr] len by simp
  have u: "unread ?this' = drop n (unread this)"
    using unread_process_enough [OF Cons.prems(1) n, of sr] len by simp
  have c: "cursor_ok ?this'" using Cons.prems(1) by (rule cursor_ok_process)
  have s: "sum_list ns \<le> length (unread ?this')" using Cons.prems(2) u by simp
  note IH = Cons.IH [OF c s]
  have r: "run sr this (Pull n # map Pull ns) = (take n (unread this), []) # run sr ?this' (map Pull ns)"
    by (simp add: pull_def) (subst p, simp)
  have t: "take n (unread this) @ take (sum_list ns) (drop n (unread this))
           = take (n + sum_list ns) (unread this)"
    by (simp add: take_add)
  have "concat (map fst (run sr this (map Pull (n # ns))))
        = take n (unread this) @ take (sum_list ns) (drop n (unread this))"
    using IH u by (simp del: run.simps add: r)
  then have "concat (map fst (run sr this (map Pull (n # ns))))
        = take (sum_list (n # ns)) (unread this)"
    using t by simp
  moreover have "map (\<lambda>r. length (fst r)) (run sr this (map Pull (n # ns))) = n # ns"
    using IH Cons.prems(2) by (simp del: run.simps add: r)
  moreover have "map snd (run sr this (map Pull (n # ns))) = replicate (length (n # ns)) []"
    using IH by (simp del: run.simps add: r)
  ultimately show ?case by blast
qed

text \<open>Between two calls the position never exceeds twice the sample rate.\<close>

lemma position_bound_process:
  "cursor_ok this \<Longrightarrow> position this \<le> sr * 2 \<Longrightarrow>
   position (fst (process sr this out)) \<le> sr * 2"
  by (cases "length (unread this) < length out")
     (simp_all add: process_underrun process_enough)

section \<open>Properties of the PCM codec\<close>

lemma floatToPcm16_loop_length [simp]:
  "length (floatToPcm16_loop input out i) = length out"
  by (induction input out i rule: floatToPcm16_loop.induct)
     (subst floatToPcm16_loop.simps, simp add: Let_def)

lemma floatToPcm16_loop_nth:
  "k < length out \<Longrightarrow>
   floatToPcm16_loop input out i ! k =
     (if i \<le> k \<and> k < length input
      then ToInt16 (let s = max (-1) (min 1 (input ! k))
                    in if s < 0 then s * 32768 else s * 32767)
      else out ! k)"
proof (induction input out i rule: floatToPcm16_loop.induct)
  case (1 input out i)
  show ?case
  proof (cases "i < length input")
    case True
    let ?v = "ToInt16 (let s = max (-1) (min 1 (input ! i))
                    in if s < 0 then s * 32768 else s * 32767)"
    have "floatToPcm16_loop input out i ! k = floatToPcm16_loop input (out[i := ?v]) (Suc i) ! k"
      using True by (subst floatToPcm16_loop.simps) (simp add: Let_def)
    also have "\<dots> = (if Suc i \<le> k \<and> k < length input
      then ToInt16 (let s = max (-1) (min 1 (input ! k))
                    in if s < 0 then s * 32768 else s * 32767)
      else out[i := ?v] ! k)"
      using "1.IH" [OF True refl] "1.prems" by (simp add: Let_def)
    finally show ?thesis
      using "1.prems" True by (cases "i = k") auto
  next
    case False
    then show ?thesis using "1.prems" by (subst floatToPcm16_loop.simps) auto
  qed
qed

lemma floatToPcm16_length: "length (floatToPcm16 input) = length input"
  by (simp add: floatToPcm16_def new_Int16Array_def)

lemma floatToPcm16_nth:
  "k < length input \<Longrightarrow>
   floatToPcm16 input ! k =
     ToInt16 (let s = max (-1) (min 1 (input ! k)) in if s < 0 then s * 32768 else s * 32767)"
  by (simp add: floatToPcm16_def new_Int16Array_def floatToPcm16_loop_nth)

lemma sint_ToInt16:
  "- 32768 \<le> js_truncate x \<Longrightarrow> js_truncate x < 32768 \<Longrightarrow> sint (ToInt16 x) = js_truncate x"
  unfolding ToInt16_def
  by (simp add: sint_sbintrunc' signed_take_bit_int_eq_self)

lemma setInt16_bytes: "[ucast v, ucast (drop_bit 8 v)] = le_bytes (v :: int16)"
proof -
  have lo: "(of_nat (unat v mod 256) :: byte) = ucast v"
  proof -
    have "unat (of_nat (unat v mod 256) :: byte) = unat (ucast v :: byte)"
      by (simp add: unat_of_nat unsigned_ucast_eq take_bit_eq_mod)
    then show ?thesis by (rule word_unat_eq_iff [THEN iffD2])
  qed
  have hi: "(of_nat (unat v div 256) :: byte) = ucast (drop_bit 8 v)"
  proof -
    have "unat (drop_bit 8 v) = unat v div 256"
      by (simp add: unat_drop_bit_eq) (simp add: drop_bit_eq_div)
    then have "(of_nat (unat v div 256) :: byte) = of_nat (unat (drop_bit 8 v))"
      by simp
    then show ?thesis by (simp only: of_nat_unat)
  qed
  show ?thesis by (simp add: le_bytes_def lo hi)
qed

lemma word_cat_halves: "word_cat (ucast (drop_bit 8 v) :: byte) (ucast v :: byte) = (v :: int16)"
  by (rule bit_word_eqI) (auto simp: bit_simps)

lemma getInt16_le_bytes: "getInt16 (le_bytes v @ rest) 0 = v"
  unfolding getInt16_def setInt16_bytes [symmetric]
  by (simp add: word_cat_halves)

lemma le_bytes_length [simp]: "length (le_bytes v) = 2"
  by (simp add: le_bytes_def)

lemma pcm_block_bytes_length [simp]: "length (pcm_block_bytes block) = 2 * length block"
  by (induction block) (simp_all add: pcm_block_bytes_def)

lemma pcm_block_bytes_Cons: "pcm_block_bytes (v # block) = le_bytes v @ pcm_block_bytes block"
  by (simp add: pcm_block_bytes_def)

lemma take_two_updates:
  "n + 2 \<le> length xs \<Longrightarrow> take (n + 2) (xs[n := a, n + 1 := b]) = take n xs @ [a, b]"
  by (rule nth_equalityI) (auto simp: nth_append nth_list_update less_Suc_eq numeral_2_eq_2)

lemma forEach_setInt16_bytes:
  "length view = 2 * (k + length block) \<Longrightarrow>
   forEach_setInt16 block k view = take (2 * k) view @ pcm_block_bytes block"
proof (induction block arbitrary: k view)
  case Nil
  then show ?case by (simp add: pcm_block_bytes_def)
next
  case (Cons v block)
  let ?view' = "setInt16 view (k * 2) v"
  have len: "length ?view' = 2 * (Suc k + length block)"
    using Cons.prems by (simp add: setInt16_def)
  have "take (2 * Suc k) ?view' = take (2 * k) view @ le_bytes v"
    using Cons.prems take_two_updates [of "2 * k" view "ucast v" "ucast (drop_bit 8 v)"]
    by (simp add: setInt16_def setInt16_bytes [symmetric] mult.commute)
  then show ?case
    using Cons.IH [OF len] by (simp add: pcm_block_bytes_Cons)
qed

lemma forEach_setInt16_block:
  "forEach_setInt16 block 0 (new_ArrayBuffer (length block * 2)) = pcm_block_bytes block"
  by (simp add: forEach_setInt16_bytes new_ArrayBuffer_def)

lemma getInt16_pcm_block_bytes:
  "k < length block \<Longrightarrow> getInt16 (pcm_block_bytes block @ rest) (k * 2) = block ! k"
proof (induction block arbitrary: k)
  case Nil
  then show ?case by simp
next
  case (Cons v block)
  show ?case
  proof (cases k)
    case 0
    then show ?thesis using getInt16_le_bytes [of v "pcm_block_bytes block @ rest"]
      by (simp add: pcm_block_bytes_Cons)
  next
    case (Suc j)
    then have "j < length block" using Cons.prems by simp
    then have "getInt16 (pcm_block_bytes block @ rest) (j * 2) = block ! j" by (rule Cons.IH)
    then show ?thesis using Suc
      by (simp add: pcm_block_bytes_Cons getInt16_def nth_append)
  qed
qed

lemma pcm16ToFloat_loop_length [simp]:
  "length (pcm16ToFloat_loop buf out i) = length out"
  by (induction buf out i rule: pcm16ToFloat_loop.induct)
     (subst pcm16ToFloat_loop.simps, simp add: Let_def)

lemma pcm16ToFloat_loop_nth:
  "k < length out \<Longrightarrow>
   pcm16ToFloat_loop buf out i ! k =
     (if i \<le> k then real_of_int (sint (getInt16 buf (k * 2))) / 32768 else out ! k)"
proof (induction buf out i rule: pcm16ToFloat_loop.induct)
  case (1 buf out i)
  show ?case
  proof (cases "i < length out")
    case True
    let ?v = "real_of_int (sint (getInt16 buf (i * 2))) / 32768"
    have "pcm16ToFloat_loop buf out i ! k = pcm16ToFloat_loop buf (out[i := ?v]) (Suc i) ! k"
      using True by (subst pcm16ToFloat_loop.simps) (simp add: Let_def)
    also have "\<dots> = (if Suc i \<le> k then real_of_int (sint (getInt16 buf (k * 2))) / 32768
                     else out[i := ?v] ! k)"
      using "1.IH" [OF True refl] "1.prems" by simp
    finally show ?thesis
      using "1.prems" True by (cases "i = k") auto
  next
    case False
    then show ?thesis using "1.prems" by (subst pcm16ToFloat_loop.simps) auto
  qed
qed

lemma pcm16ToFloat_length: "length (pcm16ToFloat buf) = length buf div 2"
  by (simp add: pcm16ToFloat_def new_Float32Array_def)

lemma pcm16ToFloat_nth:
  "k < length buf div 2 \<Longrightarrow>
   pcm16ToFloat buf ! k = real_of_int (sint (getInt16 buf (k * 2))) / 32768"
  by (simp add: pcm16ToFloat_def new_Float32Array_def pcm16ToFloat_loop_nth)

lemma pcm16ToFloat_block:
  "pcm16ToFloat (pcm_block_bytes block) = map (\<lambda>v. real_of_int (sint v) / 32768) block"
proof (rule nth_equalityI)
  show "length (pcm16ToFloat (pcm_block_bytes block))
        = length (map (\<lambda>v. real_of_int (sint v) / 32768) block)"
    by (simp add: pcm16ToFloat_length)
next
  fix k assume "k < length (pcm16ToFloat (pcm_block_bytes block))"
  then have k: "k < length block" by (simp add: pcm16ToFloat_length)
  then show "pcm16ToFloat (pcm_block_bytes block) ! k
        = map (\<lambda>v. real_of_int (sint v) / 32768) block ! k"
    using getInt16_pcm_block_bytes [OF k, of "[]"] by (simp add: pcm16ToFloat_nth)
qed

text \<open>On clamped samples the conversion never wraps: the stored value is the product with
  its fraction cut off.\<close>

lemma quantized_value:
  fixes x :: real
  defines "s \<equiv> max (-1) (min 1 x)"
  shows "sint (ToInt16 (if s < 0 then s * 32768 else s * 32767))
         = (if s < 0 then \<lceil>s * 32768\<rceil> else \<lfloor>s * 32767\<rfloor>)"
proof -
  have r: "- 1 \<le> s" "s \<le> 1" by (simp_all add: s_def)
  show ?thesis
  proof (cases "s < 0")
    case True
    have "s * 32768 < 0" using True by simp
    then have t: "js_truncate (s * 32768) = \<lceil>s * 32768\<rceil>" by (simp add: js_truncate_def)
    have "- 32768 \<le> s * 32768" using r by simp
    then have lo: "- 32768 \<le> \<lceil>s * 32768\<rceil>" by (simp add: le_ceiling_iff)
    have "s * 32768 \<le> 0" using True by simp
    then have hi: "\<lceil>s * 32768\<rceil> \<le> 0" by (simp add: ceiling_le_iff)
    show ?thesis using True t lo hi sint_ToInt16 [of "s * 32768"] by simp
  next
    case False
    have "\<not> s * 32767 < 0" using False by simp
    then have t: "js_truncate (s * 32767) = \<lfloor>s * 32767\<rfloor>" by (simp add: js_truncate_def)
    have "0 \<le> s * 32767" using False by simp
    then have lo: "0 \<le> \<lfloor>s * 32767\<rfloor>" by simp
    have "s * 32767 \<le> 32767" using r by simp
    then have hi: "\<lfloor>s * 32767\<rfloor> \<le> 32767" by (simp add: floor_le_iff)
    show ?thesis using False t lo hi sint_ToInt16 [of "s * 32767"] by simp
  qed
qed

lemma floatToPcm16_map:
  "floatToPcm16 input =
     map (\<lambda>x. ToInt16 (let s = max (-1) (min 1 x) in if s < 0 then s * 32768 else s * 32767)) input"
  by (rule nth_equalityI) (simp_all add: floatToPcm16_length floatToPcm16_nth)

lemma round_trip_map:
  "round_trip input = map (\<lambda>v. real_of_int (sint v) / 32768) (floatToPcm16 input)"
  by (simp add: round_trip_def Let_def forEach_setInt16_block pcm16ToFloat_block)

lemma round_trip_length: "length (round_trip input) = length input"
  by (simp add: round_trip_map floatToPcm16_length)

lemma round_trip_nth:
  assumes "k < length input"
  shows "round_trip input ! k =
     real_of_int (let s = max (-1) (min 1 (input ! k))
                  in if s < 0 then \<lceil>s * 32768\<rceil> else \<lfloor>s * 32767\<rfloor>) / 32768"
proof -
  have "round_trip input ! k = real_of_int (sint (floatToPcm16 input ! k)) / 32768"
    using assms by (simp add: round_trip_map floatToPcm16_length)
  also have "floatToPcm16 input ! k
      = ToInt16 (let s = max (-1) (min 1 (input ! k)) in if s < 0 then s * 32768 else s * 32767)"
    using assms by (rule floatToPcm16_nth)
  also have "sint \<dots> = (let s = max (-1) (min 1 (input ! k))
                  in if s < 0 then \<lceil>s * 32768\<rceil> else \<lfloor>s * 32767\<rfloor>)"
    unfolding Let_def by (rule quantized_value)
  finally show ?thesis .
qed

lemma round_trip_single:
  "round_trip [x] =
     [real_of_int (let s = max (-1) (min 1 x)
                   in if s < 0 then \<lceil>s * 32768\<rceil> else \<lfloor>s * 32767\<rfloor>) / 32768]"
proof (rule nth_equalityI)
  show "length (round_trip [x]) = length [real_of_int (let s = max (-1) (min 1 x)
                   in if s < 0 then \<lceil>s * 32768\<rceil> else \<lfloor>s * 32767\<rfloor>) / 32768]"
    by (simp add: round_trip_length)
next
  fix k assume "k < length (round_trip [x])"
  then have k: "k = 0" by (simp add: round_trip_length)
  show "round_trip [x] ! k = [real_of_int (let s = max (-1) (min 1 x)
                   in if s < 0 then \<lceil>s * 32768\<rceil> else \<lfloor>s * 32767\<rfloor>) / 32768] ! k"
    unfolding k using round_trip_nth [of 0 "[x]"] by (simp only: nth_Cons_0 length_Cons zero_less_Suc)
qed

section \<open>Properties of the base64 functions\<close>

lemma takeWhile_index:
  "distinct xs \<Longrightarrow> i < length xs \<Longrightarrow> length (takeWhile (\<lambda>d. d \<noteq> xs ! i) xs) = i"
proof (induction xs arbitrary: i)
  case Nil
  then show ?case by simp
next
  case (Cons x xs)
  show ?case
  proof (cases i)
    case 0
    then show ?thesis by simp
  next
    case (Suc j)
    then have "xs ! j \<in> set xs" using Cons.prems by simp
    then have "x \<noteq> xs ! j" using Cons.prems by auto
    then show ?thesis using Suc Cons by simp
  qed
qed

lemma b64_alphabet_length: "length b64_alphabet = 64"
  by (simp add: b64_alphabet_def)

lemma b64_alphabet_distinct: "distinct b64_alphabet"
  by (simp add: b64_alphabet_def)

lemma b64_val_char: "i < 64 \<Longrightarrow> b64_val (b64_char i) = i"
  unfolding b64_val_def b64_char_def
  by (rule takeWhile_index) (simp_all add: b64_alphabet_distinct b64_alphabet_length)

lemma b64_char_in: "i < 64 \<Longrightarrow> b64_char i \<in> set b64_alphabet"
  by (simp add: b64_char_def b64_alphabet_length)

lemma pad_not_in: "CHR ''='' \<notin> set b64_alphabet"
  by (simp add: b64_alphabet_def)

lemma alphabet_no_whitespace: "c \<in> set b64_alphabet \<Longrightarrow> c \<notin> set ascii_whitespace"
  by (auto simp: b64_alphabet_def ascii_whitespace_def char_of_def)

lemma pad_no_whitespace: "CHR ''='' \<notin> set ascii_whitespace"
  by (simp add: ascii_whitespace_def char_of_def)

lemma byte_bound: "unat (a :: byte) < 256"
  using unsigned_less [of a, where ?'a = nat] by simp

lemma b64_body_alphabet: "set (b64_body bytes) \<subseteq> set b64_alphabet"
proof (induction bytes rule: b64_body.induct)
  case (1 a b c rest)
  have "unat a * 65536 + unat b * 256 + unat c < 16777216"
    using byte_bound [of a] byte_bound [of b] byte_bound [of c] by linarith
  then have "(unat a * 65536 + unat b * 256 + unat c) div 262144 < 64" by linarith
  then show ?case using 1 by (simp add: Let_def b64_char_in)
next
  case (2 a b)
  have "unat a * 1024 + unat b * 4 < 262144"
    using byte_bound [of a] byte_bound [of b] by linarith
  then have "(unat a * 1024 + unat b * 4) div 4096 < 64" by linarith
  then show ?case by (simp add: Let_def b64_char_in)
next
  case (3 a)
  have "unat a * 16 < 4096" using byte_bound [of a] by linarith
  then have "unat a * 16 div 64 < 64" by linarith
  then show ?case by (simp add: Let_def b64_char_in)
next
  case 4
  then show ?case by simp
qed

lemma b64_body_length:
  "length (b64_body bytes) = 4 * (length bytes div 3) + (if length bytes mod 3 = 0 then 0 else length bytes mod 3 + 1)"
  by (induction bytes rule: b64_body.induct) (simp_all add: Let_def)

lemma digits4:
  fixes n :: nat
  shows "n div 262144 * 262144 + n div 4096 mod 64 * 4096 + n div 64 mod 64 * 64 + n mod 64 = n"
proof -
  have f1: "n div 64 * 64 + n mod 64 = n" by (rule div_mult_mod_eq)
  have f2: "n div 4096 * 64 + n div 64 mod 64 = n div 64"
    using div_mult_mod_eq [of "n div 64" 64] by (simp add: div_mult2_eq [symmetric])
  have f3: "n div 262144 * 64 + n div 4096 mod 64 = n div 4096"
    using div_mult_mod_eq [of "n div 4096" 64] by (simp add: div_mult2_eq [symmetric])
  have "n div 262144 * 262144 + n div 4096 mod 64 * 4096
        = (n div 262144 * 64 + n div 4096 mod 64) * 4096"
    by (simp add: add_mult_distrib)
  also have "\<dots> = n div 4096 * 4096" by (simp only: f3)
  finally have g: "n div 262144 * 262144 + n div 4096 mod 64 * 4096 = n div 4096 * 4096" .
  have "n div 4096 * 4096 + n div 64 mod 64 * 64 = (n div 4096 * 64 + n div 64 mod 64) * 64"
    by (simp add: add_mult_distrib)
  also have "\<dots> = n div 64 * 64" by (simp only: f2)
  finally have h: "n div 4096 * 4096 + n div 64 mod 64 * 64 = n div 64 * 64" .
  show ?thesis by (simp only: g h f1)
qed

lemma digits3:
  fixes n :: nat
  shows "n div 4096 * 4096 + n div 64 mod 64 * 64 + n mod 64 = n"
proof -
  have f1: "n div 64 * 64 + n mod 64 = n" by (rule div_mult_mod_eq)
  have f2: "n div 4096 * 64 + n div 64 mod 64 = n div 64"
    using div_mult_mod_eq [of "n div 64" 64] by (simp add: div_mult2_eq [symmetric])
  have "n div 4096 * 4096 + n div 64 mod 64 * 64 = (n div 4096 * 64 + n div 64 mod 64) * 64"
    by (simp add: add_mult_distrib)
  also have "\<dots> = n div 64 * 64" by (simp only: f2)
  finally have h: "n div 4096 * 4096 + n div 64 mod 64 * 64 = n div 64 * 64" .
  show ?thesis by (simp only: h f1)
qed

lemma bytes3:
  fixes a b c :: nat
  assumes "b < 256" "c < 256"
  shows "(a * 65536 + b * 256 + c) div 65536 = a"
    and "(a * 65536 + b * 256 + c) div 256 mod 256 = b"
    and "(a * 65536 + b * 256 + c) mod 256 = c"
proof -
  have e: "a * 65536 + b * 256 + c = (a * 256 + b) * 256 + c" by simp
  show "(a * 65536 + b * 256 + c) div 65536 = a"
    using assms by (intro div_nat_eqI) simp_all
  have "(a * 65536 + b * 256 + c) div 256 = a * 256 + b"
    using assms by (intro div_nat_eqI) simp_all
  then show "(a * 65536 + b * 256 + c) div 256 mod 256 = b"
    using assms by simp
  show "(a * 65536 + b * 256 + c) mod 256 = c"
    using assms by (simp only: e mod_mult_self3 mod_less)
qed

lemma bytes2:
  fixes a b :: nat
  assumes "b < 256"
  shows "(a * 1024 + b * 4) div 1024 = a"
    and "(a * 1024 + b * 4) div 4 mod 256 = b"
proof -
  show "(a * 1024 + b * 4) div 1024 = a"
    using assms by (intro div_nat_eqI) simp_all
  have "(a * 1024 + b * 4) div 4 = a * 256 + b"
    by (intro div_nat_eqI) simp_all
  then show "(a * 1024 + b * 4) div 4 mod 256 = b"
    using assms by simp
qed

lemma b64_decode_body: "b64_decode (map b64_val (b64_body bytes)) = bytes"
proof (induction bytes rule: b64_body.induct)
  case (1 a b c rest)
  define n where "n = unat a * 65536 + unat b * 256 + unat c"
  have bnd: "unat a < 256" "unat b < 256" "unat c < 256" by (rule byte_bound)+
  have n: "n < 16777216" using bnd unfolding n_def by linarith
  have s: "n div 262144 < 64" using n by linarith
  have a: "n div 65536 = unat a" unfolding n_def using bnd(2,3) by (rule bytes3)
  have b: "n div 256 mod 256 = unat b" unfolding n_def using bnd(2,3) by (rule bytes3)
  have c: "n mod 256 = unat c" unfolding n_def using bnd(2,3) by (rule bytes3)
  have "b64_decode (map b64_val (b64_body (a # b # c # rest)))
      = [of_nat (n div 65536), of_nat (n div 256 mod 256), of_nat (n mod 256)]
        @ b64_decode (map b64_val (b64_body rest))"
    using s by (simp add: Let_def b64_val_char n_def [symmetric] digits4)
  then show ?case using 1 by (simp add: a b c)
next
  case (2 a b)
  define n where "n = unat a * 1024 + unat b * 4"
  have bnd: "unat a < 256" "unat b < 256" by (rule byte_bound)+
  have n: "n < 262144" using bnd unfolding n_def by linarith
  have s: "n div 4096 < 64" using n by linarith
  have a: "n div 1024 = unat a" unfolding n_def using bnd(2) by (rule bytes2)
  have b: "n div 4 mod 256 = unat b" unfolding n_def using bnd(2) by (rule bytes2)
  have "b64_decode (map b64_val (b64_body [a, b]))
      = [of_nat (n div 1024), of_nat (n div 4 mod 256)]"
    using s by (simp add: Let_def b64_val_char n_def [symmetric] digits3)
  then show ?case by (simp add: a b)
next
  case (3 a)
  define n where "n = unat a * 16"
  have bnd: "unat a < 256" by (rule byte_bound)
  have s: "n div 64 < 64" using bnd unfolding n_def by linarith
  have a: "n div 16 = unat a" unfolding n_def by simp
  have "b64_decode (map b64_val (b64_body [a])) = [of_nat (n div 16)]"
    using s by (simp add: Let_def b64_val_char n_def [symmetric])
  then show ?case by (simp add: a)
next
  case 4
  then show ?case by simp
qed

lemma b64_body_mod4: "length (b64_body bytes) mod 4 \<noteq> 1"
proof -
  have "length bytes mod 3 = 0 \<or> length bytes mod 3 = 1 \<or> length bytes mod 3 = 2" by linarith
  then show ?thesis by (auto simp: b64_body_length)
qed

lemma b64_body_last: "b64_body bytes \<noteq> [] \<Longrightarrow> last (b64_body bytes) \<noteq> CHR ''=''"
proof -
  assume "b64_body bytes \<noteq> []"
  then have "last (b64_body bytes) \<in> set (b64_body bytes)" by (rule last_in_set)
  then have "last (b64_body bytes) \<in> set b64_alphabet" using b64_body_alphabet by blast
  then show ?thesis using pad_not_in by metis
qed

lemma drop_last_two: "2 \<le> length d \<Longrightarrow> drop (length d - 2) d = [x, y] \<Longrightarrow> last d = y"
  by (metis append_take_drop_id last.simps last_appendR list.distinct(1))

lemma drop_last_one: "1 \<le> length d \<Longrightarrow> drop (length d - 1) d = [y] \<Longrightarrow> last d = y"
  by (metis append_take_drop_id last.simps last_appendR list.distinct(1))

lemma strip_padding_btoa: "strip_padding (btoa bytes) = b64_body bytes"
proof -
  let ?b = "b64_body bytes"
  consider (z) "length bytes mod 3 = 0" | (o) "length bytes mod 3 = 1" | (t) "length bytes mod 3 = 2"
    by linarith
  then show ?thesis
  proof cases
    case z
    then have e: "btoa bytes = ?b" by (simp add: btoa_def)
    have "\<not> (2 \<le> length ?b \<and> drop (length ?b - 2) ?b = ''=='')"
    proof
      assume h: "2 \<le> length ?b \<and> drop (length ?b - 2) ?b = ''==''"
      then have "?b \<noteq> []" by auto
      moreover have "last ?b = CHR ''=''" using h by (intro drop_last_two) auto
      ultimately show False using b64_body_last by blast
    qed
    moreover have "\<not> (1 \<le> length ?b \<and> drop (length ?b - 1) ?b = ''='')"
    proof
      assume h: "1 \<le> length ?b \<and> drop (length ?b - 1) ?b = ''=''"
      then have "?b \<noteq> []" by auto
      moreover have "last ?b = CHR ''=''" using h by (intro drop_last_one) auto
      ultimately show False using b64_body_last by blast
    qed
    ultimately show ?thesis unfolding strip_padding_def e by auto
  next
    case o
    then have e: "btoa bytes = ?b @ ''==''" by (simp add: btoa_def numeral_2_eq_2)
    have l: "length ?b = 4 * (length bytes div 3) + 2" using o by (simp add: b64_body_length)
    have "length (?b @ ''=='') mod 4 = 0" using l by simp
    then show ?thesis by (simp add: strip_padding_def e)
  next
    case t
    then have e: "btoa bytes = ?b @ ''=''" by (simp add: btoa_def)
    have l: "length ?b = 4 * (length bytes div 3) + 3" using t by (simp add: b64_body_length)
    then have ne: "?b \<noteq> []" by auto
    have m: "length (?b @ ''='') mod 4 = 0" using l by simp
    have d: "drop (length (?b @ ''='') - 2) (?b @ ''='') = [last ?b, CHR ''='']"
    proof -
      have "drop (length ?b - 1) ?b = [last ?b]"
        using ne by (metis One_nat_def append_butlast_last_id append_eq_conv_conj length_butlast)
      then show ?thesis using l by simp
    qed
    have n2: "drop (length (?b @ ''='') - 2) (?b @ ''='') \<noteq> ''==''"
      using d b64_body_last [OF ne] by simp
    have d1: "drop (length (?b @ ''='') - 1) (?b @ ''='') = ''=''" by simp
    have l1: "1 \<le> length (?b @ ''='')" by simp
    have "strip_padding (?b @ ''='') = take (length (?b @ ''='') - 1) (?b @ ''='')"
      unfolding strip_padding_def using m n2 d1 l1
      by (simp del: length_append drop_append take_append)
    then show ?thesis by (simp add: e)
  qed
qed

lemma btoa_no_whitespace: "filter (\<lambda>c. c \<notin> set ascii_whitespace) (btoa bytes) = btoa bytes"
proof -
  have "\<forall>c \<in> set (btoa bytes). c \<notin> set ascii_whitespace"
    using b64_body_alphabet [of bytes] alphabet_no_whitespace pad_no_whitespace
    by (auto simp: btoa_def)
  then show ?thesis by simp
qed

lemma atob_btoa: "atob (btoa bytes) = Inr bytes"
proof -
  have "\<not> (\<exists>c \<in> set (b64_body bytes). c \<notin> set b64_alphabet)"
    using b64_body_alphabet [of bytes] by auto
  then show ?thesis
    unfolding atob_def Let_def btoa_no_whitespace strip_padding_btoa
    using b64_body_mod4 [of bytes] by (simp add: b64_decode_body)
qed

section \<open>Properties of the session controller\<close>

lemma atob_AQID: "atob ''AQID'' = Inr [1, 2, 3]"
  by (simp add: atob_def ascii_whitespace_def strip_padding_def b64_val_def b64_alphabet_def
      char_of_def Let_def)

lemma atob_A: "atob ''A'' = Inl InvalidCharacterError"
  by (simp add: atob_def ascii_whitespace_def strip_padding_def char_of_def Let_def)

lemma atob_AQI: "atob ''AQI='' = Inr [1, 2]"
  by (simp add: atob_def ascii_whitespace_def strip_padding_def b64_val_def b64_alphabet_def
      char_of_def Let_def)

lemma getInt16_123: "getInt16 [1, 2, 3] 0 = 513"
  by (simp add: getInt16_def word_cat_eq)

lemma pcm16ToFloat_123: "pcm16ToFloat [1, 2, 3] = [513/32768]"
proof (rule nth_equalityI)
  show "length (pcm16ToFloat [1, 2, 3]) = length [513/32768 :: real]"
    by (simp add: pcm16ToFloat_length)
next
  fix k assume "k < length (pcm16ToFloat [1, 2, 3])"
  then have "k = 0" by (simp add: pcm16ToFloat_length)
  then show "pcm16ToFloat [1, 2, 3] ! k = [513/32768] ! k"
    by (simp add: pcm16ToFloat_nth getInt16_123)
qed

lemma pcm16ToFloat_12: "pcm16ToFloat [1, 2] = [513/32768]"
proof (rule nth_equalityI)
  show "length (pcm16ToFloat [1, 2]) = length [513/32768 :: real]"
    by (simp add: pcm16ToFloat_length)
next
  fix k assume "k < length (pcm16ToFloat [1, 2])"
  then have "k = 0" by (simp add: pcm16ToFloat_length)
  then show "pcm16ToFloat [1, 2] ! k = [513/32768] ! k"
    by (simp add: pcm16ToFloat_nth getInt16_def word_cat_eq)
qed

lemma ws_onmessage_stop:
  "event chunk = ''stop'' \<Longrightarrow>
   ws_onmessage isTalking0 st chunk =
     st\<lparr>console := console st @ [console_log ''Interruption''], isTalking := False\<rparr>"
  by (cases "audioWorkletNodeRef st")
     (simp_all add: ws_onmessage_def postMessage_def Let_def port_onmessage_eq)

lemma ws_onmessage_media_error:
  "event chunk = ''media'' \<Longrightarrow> atob (data chunk) = Inl error \<Longrightarrow>
   ws_onmessage isTalking0 st chunk =
     st\<lparr>console := console st @ [console_error ''Error processing audio data:'' error]\<rparr>"
  by (simp add: ws_onmessage_def)

lemma ws_onmessage_media_bytes:
  "event chunk = ''media'' \<Longrightarrow> atob (data chunk) = Inr bytes \<Longrightarrow>
   ws_onmessage isTalking0 st chunk =
     (if 2 \<le> length bytes then
        st\<lparr>audioWorkletNodeRef := map_option (\<lambda>this. append this (pcm16ToFloat bytes))
                                    (audioWorkletNodeRef st),
           isTalking := (if isTalking0 then isTalking st else True)\<rparr>
      else st)"
proof -
  assume "event chunk = ''media''" and "atob (data chunk) = Inr bytes"
  moreover have "(length (pcm16ToFloat bytes) = 0) = (length bytes < 2)"
    unfolding pcm16ToFloat_length by linarith
  then have "(pcm16ToFloat bytes = []) = (length bytes < 2)" by simp
  ultimately show ?thesis
    by (auto simp: ws_onmessage_def postMessage_def Let_def append_def)
qed

lemma ws_onmessage_console:
  "messages (ws_onmessage b (st\<lparr>console := c\<rparr>) ch) = messages (ws_onmessage b st ch)"
  "isTalking (ws_onmessage b (st\<lparr>console := c\<rparr>) ch) = isTalking (ws_onmessage b st ch)"
  "isEngaged (ws_onmessage b (st\<lparr>console := c\<rparr>) ch) = isEngaged (ws_onmessage b st ch)"
  "audioWorkletNodeRef (ws_onmessage b (st\<lparr>console := c\<rparr>) ch)
     = audioWorkletNodeRef (ws_onmessage b st ch)"
  "wsRef (ws_onmessage b (st\<lparr>console := c\<rparr>) ch) = wsRef (ws_onmessage b st ch)"
  by (simp_all add: ws_onmessage_def postMessage_def Let_def split: sum.split)

lemma b64_char_vals:
  "b64_char 63 = CHR ''/''" "b64_char 49 = CHR ''x''" "b64_char 60 = CHR ''8''"
  "b64_char 0 = CHR ''A''" "b64_char 56 = CHR ''4''"
  by (simp_all add: b64_char_def b64_alphabet_def)

lemma quarter_body: "b64_body [255, 31, 0, 224] = ''/x8A4A''"
proof -
  have "b64_body [255, 31, 0, 224]
      = [b64_char 63, b64_char 49, b64_char 60, b64_char 0, b64_char 56, b64_char 0]"
    by (simp add: Let_def)
  then show ?thesis by (simp only: b64_char_vals)
qed

lemma replicate_two: "replicate 2 x = [x, x]"
  by (simp add: numeral_2_eq_2)

lemma quarter_text: "btoa [255, 31, 0, 224] = ''/x8A4A==''"
proof -
  have "(3 - length [255, 31, 0, 224 :: byte] mod 3) mod 3 = 2" by simp
  then show ?thesis
    unfolding btoa_def quarter_body by (simp only: replicate_two append.simps)
qed

lemma onaudioprocess_eq:
  "onaudioprocess st input =
     (if map_option readyState (wsRef st) = Some OPEN
      then ws_send st (btoa (pcm_block_bytes (floatToPcm16 input))) else st)"
  unfolding onaudioprocess_def Let_def forEach_setInt16_block ..

lemma quarter_block: "floatToPcm16 [1/4, - 1/4] = [8191, - 8192]"
  by (simp add: floatToPcm16_map ToInt16_def js_truncate_def)

lemma quarter_bytes: "pcm_block_bytes [8191, - 8192] = [255, 31, 0, 224]"
  by (simp add: pcm_block_bytes_def le_bytes_def)

section \<open>Claims about the playback buffer\<close>

text \<open>
  Claim C8. The read position never passes the end of the buffer: the predicate
  \<open>position \<le> buffer.length\<close> holds for the freshly constructed processor and is kept by
  every message of the port (so by append), by every call of \<open>process\<close> in both of its
  branches, the clean-up included, and it holds after a flush from any state.
\<close>

theorem cursor_le_length_invariant:
  "cursor_ok constructor \<and>
   (cursor_ok this \<longrightarrow>
      cursor_ok (append this samples) \<and>
      cursor_ok (port_onmessage this d) \<and>
      cursor_ok (fst (process sampleRate this out)) \<and>
      cursor_ok (fst (pull sampleRate this n))) \<and>
   cursor_ok (flush this)"
proof -
  have "cursor_ok constructor"
    by (simp add: cursor_ok_def constructor_def new_Float32Array_def)
  then show ?thesis
    by (simp add: cursor_ok_process cursor_ok_port_onmessage cursor_ok_append cursor_ok_flush
        pull_def)
qed

theorem cursor_le_length_invariant_witness:
  "cursor_ok \<lparr>buffer = [1/2, 1/4], position = 1\<rparr> \<and>
   cursor_ok (append \<lparr>buffer = [1/2, 1/4], position = 1\<rparr> [1/8]) \<and>
   cursor_ok (fst (process 1 \<lparr>buffer = [1/2, 1/4], position = 1\<rparr> [0, 0])) \<and>
   cursor_ok (fst (pull 1 \<lparr>buffer = [1/2, 1/4], position = 1\<rparr> 1))"
proof -
  have h: "cursor_ok \<lparr>buffer = [1/2, 1/4], position = 1\<rparr>"
    by (simp add: cursor_ok_def)
  show ?thesis
    using h cursor_le_length_invariant
      [of "\<lparr>buffer = [1/2, 1/4], position = 1\<rparr>" "[1/8]" "\<lparr>mtype = ''clear'', audio = []\<rparr>" 1 "[0, 0]" 1]
    by simp
qed

text \<open>
  Claim C2, as stated, at a buffer holding the one sample \<open>1/2\<close> and a request for two
  samples: the block that comes back is the zero block the caller supplied. It is neither
  the available sample padded with zeros nor the available sample alone.
\<close>

theorem pull_underrun_counterexample:
  "length (unread \<lparr>buffer = [1/2], position = 0\<rparr>) < 2 \<and>
   fst (snd (pull 16000 \<lparr>buffer = [1/2], position = 0\<rparr> 2)) = [0, 0] \<and>
   fst (snd (pull 16000 \<lparr>buffer = [1/2], position = 0\<rparr> 2))
     \<noteq> unread \<lparr>buffer = [1/2], position = 0\<rparr>
        @ replicate (2 - length (unread \<lparr>buffer = [1/2], position = 0\<rparr>)) 0 \<and>
   fst (snd (pull 16000 \<lparr>buffer = [1/2], position = 0\<rparr> 2))
     \<noteq> unread \<lparr>buffer = [1/2], position = 0\<rparr>"
  by (simp add: pull_def process_def unread_def new_Float32Array_def numeral_2_eq_2)

text \<open>
  Claim C2, amended. When fewer unread samples remain than the output block holds,
  \<open>process\<close> writes nothing: the block is returned as it was supplied, the processor is
  unchanged and \<open>needData\<close> is posted. Otherwise the block is exactly the next unread
  samples, nothing is posted, the unread samples lose that prefix, and the position is
  advanced by the block length and then reset to zero when it exceeds twice the sample rate.
\<close>

theorem pull_contract:
  "cursor_ok this \<Longrightarrow>
   (length (unread this) < length out \<longrightarrow>
      process sampleRate this out = (this, out, [''needData''])) \<and>
   (length out \<le> length (unread this) \<longrightarrow>
      fst (snd (process sampleRate this out)) = take (length out) (unread this) \<and>
      length (fst (snd (process sampleRate this out))) = length out \<and>
      snd (snd (process sampleRate this out)) = [] \<and>
      unread (fst (process sampleRate this out)) = drop (length out) (unread this) \<and>
      position (fst (process sampleRate this out))
        = (if position this + length out > sampleRate * 2 then 0
           else position this + length out))"
  by (auto simp: process_underrun unread_process_enough) (simp_all add: process_enough)

theorem pull_contract_witness:
  "cursor_ok \<lparr>buffer = [1/2, 1/4, 1/8], position = 1\<rparr> \<and>
   process 16000 \<lparr>buffer = [1/2, 1/4, 1/8], position = 1\<rparr> [0, 0, 0]
     = (\<lparr>buffer = [1/2, 1/4, 1/8], position = 1\<rparr>, [0, 0, 0], [''needData'']) \<and>
   fst (snd (process 16000 \<lparr>buffer = [1/2, 1/4, 1/8], position = 1\<rparr> [0, 0])) = [1/4, 1/8] \<and>
   position (fst (process 16000 \<lparr>buffer = [1/2, 1/4, 1/8], position = 1\<rparr> [0, 0])) = 3"
proof -
  have h: "cursor_ok \<lparr>buffer = [1/2, 1/4, 1/8], position = 1\<rparr>"
    by (simp add: cursor_ok_def)
  show ?thesis
    using h pull_contract [OF h, of "[0, 0, 0]" 16000] pull_contract [OF h, of "[0, 0]" 16000]
    by (simp add: unread_def)
qed

text \<open>
  Claim C5. After an append, any split of the unread length into pull sizes is served in
  full: the blocks, concatenated, are the samples that were unread before followed by the
  appended ones (exactly the appended samples when nothing was unread, as in a fresh
  buffer), every block has the size asked for, and no pull posts \<open>needData\<close>.
\<close>

theorem append_then_pulls:
  "cursor_ok this \<Longrightarrow> sum_list ns = length (unread this) + length samples \<Longrightarrow>
   concat (map fst (run sampleRate (append this samples) (map Pull ns))) = unread this @ samples \<and>
   map (\<lambda>r. length (fst r)) (run sampleRate (append this samples) (map Pull ns)) = ns \<and>
   map snd (run sampleRate (append this samples) (map Pull ns)) = replicate (length ns) []"
  using run_pulls [of "append this samples" ns sampleRate]
  by (simp add: cursor_ok_append unread_append)

theorem append_then_pulls_witness:
  "cursor_ok constructor \<and> sum_list [2, 0, 1] = length (unread constructor) + length [1/2, 1/4, 1/8 :: real] \<and>
   concat (map fst (run 1 (append constructor [1/2, 1/4, 1/8]) (map Pull [2, 0, 1]))) = [1/2, 1/4, 1/8]"
proof -
  have h: "cursor_ok constructor"
    by (simp add: cursor_ok_def constructor_def)
  have u: "unread constructor = []"
    by (simp add: unread_def constructor_def new_Float32Array_def)
  have s: "sum_list [2, 0, 1] = length (unread constructor) + length [1/2, 1/4, 1/8 :: real]"
    by (simp add: u)
  show ?thesis
    using h s append_then_pulls [OF h s, of 1] by (simp add: u)
qed

text \<open>
  Claim C10. A call of \<open>process\<close> that finds fewer unread samples than the block holds
  changes nothing: the processor and the output block come back as they were, with
  \<open>needData\<close> posted. Once enough samples have been appended, the pulls deliver the samples
  that were unread at the underrun followed by the appended ones, in order.
\<close>

theorem underrun_consumes_nothing:
  "length (unread this) < length out \<Longrightarrow>
   process sampleRate this out = (this, out, [''needData'']) \<and>
   (cursor_ok this \<and> sum_list ns = length (unread this) + length samples \<longrightarrow>
      concat (map fst (run sampleRate
         (append (fst (process sampleRate this out)) samples) (map Pull ns)))
        = unread this @ samples)"
  using run_pulls [of "append this samples" ns sampleRate]
  by (simp add: process_underrun cursor_ok_append unread_append)

theorem underrun_consumes_nothing_witness:
  "length (unread \<lparr>buffer = [1/2, 1/4], position = 1\<rparr>) < length [0, 0 :: real] \<and>
   process 1 \<lparr>buffer = [1/2, 1/4], position = 1\<rparr> [0, 0]
     = (\<lparr>buffer = [1/2, 1/4], position = 1\<rparr>, [0, 0], [''needData'']) \<and>
   concat (map fst (run 1
      (append (fst (process 1 \<lparr>buffer = [1/2, 1/4], position = 1\<rparr> [0, 0])) [1/8]) (map Pull [2])))
     = [1/4, 1/8]"
proof -
  have h: "length (unread \<lparr>buffer = [1/2, 1/4], position = 1\<rparr>) < length [0, 0 :: real]"
    by (simp add: unread_def)
  have c: "cursor_ok \<lparr>buffer = [1/2, 1/4], position = 1\<rparr>"
    by (simp add: cursor_ok_def)
  have s: "sum_list [2] = length (unread \<lparr>buffer = [1/2, 1/4], position = 1\<rparr>) + length [1/8 :: real]"
    by (simp add: unread_def)
  have u: "unread \<lparr>buffer = [1/2, 1/4], position = 1\<rparr> @ [1/8] = [1/4, 1/8]"
    by (simp add: unread_def)
  note t = underrun_consumes_nothing [OF h, of 1 "[2]" "[1/8]"]
  have "concat (map fst (run 1
      (append (fst (process 1 \<lparr>buffer = [1/2, 1/4], position = 1\<rparr> [0, 0])) [1/8]) (map Pull [2])))
     = [1/4, 1/8]"
    using t [THEN conjunct2, rule_format, OF conjI, OF c s] u by simp
  then show ?thesis
    using h t [THEN conjunct1] by blast
qed

text \<open>
  Claim C7. When a call of \<open>process\<close> moves the position beyond twice the sample rate, the
  same call cuts the consumed prefix off the buffer and resets the position to zero. The
  unread samples are those the call without the clean-up leaves, and every later schedule
  of appends, flushes and pulls delivers the same blocks and the same messages as it does
  on a buffer that is never compacted.
\<close>

theorem compaction_keeps_unread:
  "cursor_ok this \<Longrightarrow> length out \<le> length (unread this) \<Longrightarrow>
   sampleRate * 2 < position this + length out \<Longrightarrow>
   buffer (fst (process sampleRate this out)) = drop (length out) (unread this) \<and>
   position (fst (process sampleRate this out)) = 0 \<and>
   unread (fst (process sampleRate this out)) = unread (fst (process_nocompact this out)) \<and>
   run sampleRate (fst (process sampleRate this out)) ops
     = run_nocompact (fst (process_nocompact this out)) ops"
proof -
  assume c: "cursor_ok this" and n: "length out \<le> length (unread this)"
    and b: "sampleRate * 2 < position this + length out"
  have u: "unread (fst (process sampleRate this out)) = unread (fst (process_nocompact this out))"
    using c n by (simp add: unread_process_enough unread_process_nocompact_enough)
  have r: "run sampleRate (fst (process sampleRate this out)) ops
     = run_nocompact (fst (process_nocompact this out)) ops"
    using c u by (intro run_vs_nocompact cursor_ok_process cursor_ok_process_nocompact)
  have "buffer (fst (process sampleRate this out)) = drop (length out) (unread this)"
    using c n b by (simp add: process_enough unread_def add.commute)
  moreover have "position (fst (process sampleRate this out)) = 0"
    using c n b by (simp add: process_enough)
  ultimately show ?thesis using u r by simp
qed

theorem compaction_keeps_unread_witness:
  "cursor_ok \<lparr>buffer = [1/2, 1/4, 1/8, 1], position = 1\<rparr> \<and>
   length [0, 0 :: real] \<le> length (unread \<lparr>buffer = [1/2, 1/4, 1/8, 1], position = 1\<rparr>) \<and>
   1 * 2 < position \<lparr>buffer = [1/2, 1/4, 1/8, 1], position = 1\<rparr> + length [0, 0 :: real] \<and>
   buffer (fst (process 1 \<lparr>buffer = [1/2, 1/4, 1/8, 1], position = 1\<rparr> [0, 0])) = [1] \<and>
   position (fst (process 1 \<lparr>buffer = [1/2, 1/4, 1/8, 1], position = 1\<rparr> [0, 0])) = 0 \<and>
   run 1 (fst (process 1 \<lparr>buffer = [1/2, 1/4, 1/8, 1], position = 1\<rparr> [0, 0])) [Pull 1]
     = run_nocompact (fst (process_nocompact \<lparr>buffer = [1/2, 1/4, 1/8, 1], position = 1\<rparr> [0, 0])) [Pull 1]"
proof -
  have c: "cursor_ok \<lparr>buffer = [1/2, 1/4, 1/8, 1], position = 1\<rparr>"
    by (simp add: cursor_ok_def)
  have n: "length [0, 0 :: real] \<le> length (unread \<lparr>buffer = [1/2, 1/4, 1/8, 1], position = 1\<rparr>)"
    by (simp add: unread_def)
  have b: "1 * 2 < position \<lparr>buffer = [1/2, 1/4, 1/8, 1], position = 1\<rparr> + length [0, 0 :: real]"
    by simp
  show ?thesis
    using c n b compaction_keeps_unread [OF c n b, of "[Pull 1]"]
    by (simp add: unread_def)
qed

section \<open>Claims about the PCM codec\<close>

text \<open>
  Claim C3, as stated, at the sample \<open>1/4\<close>: the product \<open>8191.75\<close> rounds to \<open>8192\<close>, and
  \<open>floatToPcm16\<close> stores \<open>8191\<close>.
\<close>

theorem floatToPcm16_rounds_counterexample:
  "sint (floatToPcm16 [1/4] ! 0) = 8191 \<and>
   round (max (-1) (min 1 (1/4 :: real)) * 32767) = 8192"
  by (simp add: floatToPcm16_nth ToInt16_def js_truncate_def round_def)

text \<open>
  Claim C3, amended. \<open>floatToPcm16\<close> keeps the number and the order of the samples and maps
  each sample \<open>s\<close>, clamped to \<open>[-1, 1]\<close>, to \<open>s * 32767\<close> with the fraction cut off for
  \<open>s \<ge> 0\<close> and to \<open>s * 32768\<close> with the fraction cut off for \<open>s < 0\<close> (towards zero in both
  cases); the 16-bit store never wraps.
\<close>

theorem floatToPcm16_truncates:
  "length (floatToPcm16 input) = length input \<and>
   (\<forall>k < length input.
      sint (floatToPcm16 input ! k) =
        (let s = max (-1) (min 1 (input ! k))
         in if s < 0 then \<lceil>s * 32768\<rceil> else \<lfloor>s * 32767\<rfloor>))"
  using quantized_value by (simp add: floatToPcm16_length floatToPcm16_nth Let_def)

theorem floatToPcm16_truncates_witness:
  "length (floatToPcm16 [1/4, - 3/4, 5]) = 3 \<and>
   sint (floatToPcm16 [1/4, - 3/4, 5] ! 0) = 8191 \<and>
   sint (floatToPcm16 [1/4, - 3/4, 5] ! 1) = - 24576 \<and>
   sint (floatToPcm16 [1/4, - 3/4, 5] ! 2) = 32767"
proof -
  note t = floatToPcm16_truncates [of "[1/4, - 3/4, 5]"]
  have "length (floatToPcm16 [1/4, - 3/4, 5]) = 3"
    using t [THEN conjunct1] by simp
  moreover have "sint (floatToPcm16 [1/4, - 3/4, 5] ! 0) = 8191"
    using t [THEN conjunct2, rule_format, of 0] by (simp add: Let_def)
  moreover have "sint (floatToPcm16 [1/4, - 3/4, 5] ! 1) = - 24576"
    using t [THEN conjunct2, rule_format, of 1] by (simp add: Let_def)
  moreover have "sint (floatToPcm16 [1/4, - 3/4, 5] ! 2) = 32767"
    using t [THEN conjunct2, rule_format, of 2] by (simp add: Let_def)
  ultimately show ?thesis by blast
qed

text \<open>
  Claim C4, as stated, at the sample \<open>65535/65536\<close>: it is quantised to \<open>32766\<close> and read back
  as \<open>16383/16384\<close>, which is \<open>3/65536\<close> away, more than \<open>1/32768\<close>.
\<close>

theorem round_trip_error_counterexample:
  "- 1 \<le> (65535/65536 :: real) \<and> (65535/65536 :: real) \<le> 1 \<and>
   round_trip [65535/65536] ! 0 = 16383/16384 \<and>
   \<bar>round_trip [65535/65536] ! 0 - 65535/65536\<bar> > 1/32768"
  by (simp add: round_trip_single)

text \<open>
  Claim C4, amended. For every sample \<open>s\<close> in \<open>[-1, 1]\<close> the value read back after
  quantisation is the truncated product divided by \<open>32768\<close>; it differs from \<open>s\<close> by less
  than \<open>1/16384\<close>, and by less than \<open>1/32768\<close> when \<open>s\<close> is negative.
\<close>

theorem round_trip_error:
  "- 1 \<le> s \<Longrightarrow> s \<le> 1 \<Longrightarrow>
   round_trip [s] = [real_of_int (if s < 0 then \<lceil>s * 32768\<rceil> else \<lfloor>s * 32767\<rfloor>) / 32768] \<and>
   \<bar>round_trip [s] ! 0 - s\<bar> < 1/16384 \<and>
   (s < 0 \<longrightarrow> \<bar>round_trip [s] ! 0 - s\<bar> < 1/32768)"
proof -
  assume r: "- 1 \<le> s" "s \<le> 1"
  then have c: "max (-1) (min 1 s) = s" by simp
  have v: "round_trip [s]
      = [real_of_int (if s < 0 then \<lceil>s * 32768\<rceil> else \<lfloor>s * 32767\<rfloor>) / 32768]"
    by (simp only: round_trip_single c Let_def)
  show ?thesis
  proof (cases "s < 0")
    case True
    have "s * 32768 \<le> real_of_int \<lceil>s * 32768\<rceil>" by (rule le_of_int_ceiling)
    moreover have "real_of_int \<lceil>s * 32768\<rceil> < s * 32768 + 1" by linarith
    ultimately have "\<bar>real_of_int \<lceil>s * 32768\<rceil> / 32768 - s\<bar> < 1/32768"
      by linarith
    then show ?thesis using True v by simp
  next
    case False
    have "real_of_int \<lfloor>s * 32767\<rfloor> \<le> s * 32767" by (rule of_int_floor_le)
    moreover have "s * 32767 < real_of_int \<lfloor>s * 32767\<rfloor> + 1" by linarith
    ultimately have "\<bar>real_of_int \<lfloor>s * 32767\<rfloor> / 32768 - s\<bar> < 1/16384"
      using r False by linarith
    then show ?thesis using False v by simp
  qed
qed

theorem round_trip_error_witness:
  "- 1 \<le> (- 65535/65536 :: real) \<and> (- 65535/65536 :: real) \<le> 1 \<and>
   round_trip [- 65535/65536] = [- 32767/32768] \<and>
   \<bar>round_trip [- 65535/65536] ! 0 - (- 65535/65536)\<bar> < 1/16384"
proof -
  have a: "- 1 \<le> (- 65535/65536 :: real)" and b: "(- 65535/65536 :: real) \<le> 1" by simp_all
  show ?thesis using a b round_trip_error [OF a b] by simp
qed

section \<open>Claims about the session controller\<close>

text \<open>
  Claim C1. The claim asks that a \<open>stop\<close> message empties the playback buffer. In the code
  the handler posts a message of type \<open>stop\<close> to the worklet, whose port knows the types
  \<open>data\<close> and \<open>clear\<close> only. Evaluated on an active session that holds the samples
  \<open>1/2, 1/4\<close>: after the \<open>stop\<close> message the worklet still holds both samples (the talking
  flag is false), so the next pull of two samples delivers them and posts nothing; after a
  \<open>clear\<close> message the same pull finds nothing and posts \<open>needData\<close>.
\<close>

theorem stop_leaves_buffer:
  "audioWorkletNodeRef
     (ws_onmessage True (active_session [1/2, 1/4] True) \<lparr>event = ''stop'', data = [], speaker = []\<rparr>)
     = Some \<lparr>buffer = [1/2, 1/4], position = 0\<rparr> \<and>
   isTalking
     (ws_onmessage True (active_session [1/2, 1/4] True) \<lparr>event = ''stop'', data = [], speaker = []\<rparr>)
     = False \<and>
   pull 16000 \<lparr>buffer = [1/2, 1/4], position = 0\<rparr> 2
     = (\<lparr>buffer = [1/2, 1/4], position = 2\<rparr>, [1/2, 1/4], []) \<and>
   pull 16000 (flush \<lparr>buffer = [1/2, 1/4], position = 0\<rparr>) 2
     = (\<lparr>buffer = [], position = 0\<rparr>, [0, 0], [''needData''])"
proof -
  have c: "cursor_ok \<lparr>buffer = [1/2, 1/4], position = 0\<rparr>" by (simp add: cursor_ok_def)
  have "pull 16000 \<lparr>buffer = [1/2, 1/4], position = 0\<rparr> 2
     = (\<lparr>buffer = [1/2, 1/4], position = 2\<rparr>, [1/2, 1/4], [])"
    unfolding pull_def
    by (subst process_enough [OF c]) (simp_all add: unread_def new_Float32Array_def)
  moreover have "pull 16000 (flush \<lparr>buffer = [1/2, 1/4], position = 0\<rparr>) 2
     = (\<lparr>buffer = [], position = 0\<rparr>, [0, 0], [''needData''])"
    unfolding pull_def
    by (subst process_underrun)
       (simp_all add: unread_def new_Float32Array_def flush_eq numeral_2_eq_2)
  ultimately show ?thesis
    by (simp add: ws_onmessage_stop active_session_def)
qed

text \<open>
  Claim C6, as stated, at the payload \<open>AQID\<close>: it decodes to the three bytes \<open>1, 2, 3\<close>,
  which is not a whole number of 16-bit samples. Nothing is logged; the third byte is
  dropped, the sample \<open>513/32768\<close> is appended and the talking flag is set.
\<close>

theorem odd_payload_counterexample:
  "atob ''AQID'' = Inr [1, 2, 3] \<and> odd (length [1, 2, 3 :: byte]) \<and>
   ws_onmessage False (active_session [] False) \<lparr>event = ''media'', data = ''AQID'', speaker = []\<rparr>
     = (active_session [] False)
         \<lparr>audioWorkletNodeRef := Some \<lparr>buffer = [513/32768], position = 0\<rparr>, isTalking := True\<rparr>"
proof -
  have "ws_onmessage False (active_session [] False) \<lparr>event = ''media'', data = ''AQID'', speaker = []\<rparr>
     = (active_session [] False)
         \<lparr>audioWorkletNodeRef := Some \<lparr>buffer = [513/32768], position = 0\<rparr>, isTalking := True\<rparr>"
    by (subst ws_onmessage_media_bytes [where bytes = "[1, 2, 3]"])
       (simp_all add: atob_AQID pcm16ToFloat_123 append_eq active_session_def)
  then show ?thesis by (simp add: atob_AQID)
qed

text \<open>
  Claim C6, amended. For a \<open>media\<close> message whose payload \<open>atob\<close> rejects, the handler logs
  the error and changes nothing else: the worklet, the talking flag and the socket are as
  before, and a later message has the effect it has without the rejected one. A payload
  that \<open>atob\<close> decodes is never rejected: it yields \<open>length bytes div 2\<close> samples (the last
  byte of an odd count is dropped). When there is at least one sample, the samples are
  appended, and the talking flag is set to true if the \<open>isTalking\<close> the handler captured is
  false; if the captured value is true the flag is left as it is, whatever it is by then.
  With no sample the state is unchanged.
\<close>

theorem media_payload_handling:
  "event chunk = ''media'' \<Longrightarrow>
   (case atob (data chunk) of
      Inl error \<Rightarrow>
        ws_onmessage isTalking0 st chunk
          = st\<lparr>console := console st @ [console_error ''Error processing audio data:'' error]\<rparr> \<and>
        audioWorkletNodeRef (ws_onmessage isTalking0 st chunk) = audioWorkletNodeRef st \<and>
        isTalking (ws_onmessage isTalking0 st chunk) = isTalking st \<and>
        wsRef (ws_onmessage isTalking0 st chunk) = wsRef st \<and>
        messages (ws_onmessage isTalking0 (ws_onmessage isTalking0 st chunk) later)
          = messages (ws_onmessage isTalking0 st later) \<and>
        isTalking (ws_onmessage isTalking0 (ws_onmessage isTalking0 st chunk) later)
          = isTalking (ws_onmessage isTalking0 st later) \<and>
        audioWorkletNodeRef (ws_onmessage isTalking0 (ws_onmessage isTalking0 st chunk) later)
          = audioWorkletNodeRef (ws_onmessage isTalking0 st later) \<and>
        wsRef (ws_onmessage isTalking0 (ws_onmessage isTalking0 st chunk) later)
          = wsRef (ws_onmessage isTalking0 st later)
    | Inr bytes \<Rightarrow>
        length (pcm16ToFloat bytes) = length bytes div 2 \<and>
        ws_onmessage isTalking0 st chunk =
          (if 2 \<le> length bytes then
             st\<lparr>audioWorkletNodeRef := map_option (\<lambda>this. append this (pcm16ToFloat bytes))
                                         (audioWorkletNodeRef st),
                isTalking := (if isTalking0 then isTalking st else True)\<rparr>
           else st))"
proof -
  assume m: "event chunk = ''media''"
  show ?thesis
  proof (cases "atob (data chunk)")
    case (Inl error)
    have e: "ws_onmessage isTalking0 st chunk
          = st\<lparr>console := console st @ [console_error ''Error processing audio data:'' error]\<rparr>"
      using m Inl by (rule ws_onmessage_media_error)
    show ?thesis using Inl by (simp add: e ws_onmessage_console)
  next
    case (Inr bytes)
    show ?thesis using Inr ws_onmessage_media_bytes [OF m Inr, of isTalking0 st]
      by (simp add: pcm16ToFloat_length)
  qed
qed

theorem media_payload_handling_witness:
  "event \<lparr>event = ''media'', data = ''A'', speaker = []\<rparr> = ''media'' \<and>
   atob ''A'' = Inl InvalidCharacterError \<and>
   ws_onmessage False (active_session [1/2] True) \<lparr>event = ''media'', data = ''A'', speaker = []\<rparr>
     = (active_session [1/2] True)
         \<lparr>console := [console_error ''Error processing audio data:'' InvalidCharacterError]\<rparr> \<and>
   audioWorkletNodeRef
     (ws_onmessage False
        (ws_onmessage False (active_session [1/2] True) \<lparr>event = ''media'', data = ''A'', speaker = []\<rparr>)
        \<lparr>event = ''media'', data = ''AQI='', speaker = []\<rparr>)
     = Some \<lparr>buffer = [1/2, 513/32768], position = 0\<rparr> \<and>
   event \<lparr>event = ''media'', data = ''AQI='', speaker = []\<rparr> = ''media'' \<and>
   atob ''AQI='' = Inr [1, 2] \<and>
   ws_onmessage False (active_session [1/2] False) \<lparr>event = ''media'', data = ''AQI='', speaker = []\<rparr>
     = (active_session [1/2] False)
         \<lparr>audioWorkletNodeRef := Some \<lparr>buffer = [1/2, 513/32768], position = 0\<rparr>,
          isTalking := True\<rparr> \<and>
   ws_onmessage True (active_session [1/2] False) \<lparr>event = ''media'', data = ''AQI='', speaker = []\<rparr>
     = (active_session [1/2] False)
         \<lparr>audioWorkletNodeRef := Some \<lparr>buffer = [1/2, 513/32768], position = 0\<rparr>\<rparr> \<and>
   isTalking
     (ws_onmessage True (active_session [1/2] False) \<lparr>event = ''media'', data = ''AQI='', speaker = []\<rparr>)
     = False"
proof -
  let ?bad = "\<lparr>event = ''media'', data = ''A'', speaker = []\<rparr>"
  let ?good = "\<lparr>event = ''media'', data = ''AQI='', speaker = []\<rparr>"
  have m: "event ?bad = ''media''" by simp
  have mg: "event ?good = ''media''" by simp
  note t = media_payload_handling [OF m, of False "active_session [1/2] True" ?good]
  have dg: "atob (data ?good) = Inr [1, 2]" by (simp add: atob_AQI)
  have g: "ws_onmessage False (active_session [1/2] True) ?good
     = (active_session [1/2] True)
         \<lparr>audioWorkletNodeRef := Some \<lparr>buffer = [1/2, 513/32768], position = 0\<rparr>,
          isTalking := True\<rparr>"
    using media_payload_handling [OF mg, of False "active_session [1/2] True" ?good,
        unfolded dg sum.case, THEN conjunct2]
    by (simp add: pcm16ToFloat_12 append_eq active_session_def)
  have d: "atob (data ?bad) = Inl InvalidCharacterError" by (simp add: atob_A)
  note t' = t [unfolded d sum.case]
  have c: "console (active_session [1/2] True) = []" by (simp add: active_session_def)
  have a: "ws_onmessage False (active_session [1/2] True) ?bad
     = (active_session [1/2] True)
         \<lparr>console := [console_error ''Error processing audio data:'' InvalidCharacterError]\<rparr>"
    using t' [THEN conjunct1] by (simp only: c append_Nil)
  have "audioWorkletNodeRef (ws_onmessage False (ws_onmessage False (active_session [1/2] True) ?bad) ?good)
     = audioWorkletNodeRef (ws_onmessage False (active_session [1/2] True) ?good)"
    using t' by blast
  then have b: "audioWorkletNodeRef
       (ws_onmessage False (ws_onmessage False (active_session [1/2] True) ?bad) ?good)
     = Some \<lparr>buffer = [1/2, 513/32768], position = 0\<rparr>"
    by (simp only: g) simp
  have f: "ws_onmessage False (active_session [1/2] False) ?good
     = (active_session [1/2] False)
         \<lparr>audioWorkletNodeRef := Some \<lparr>buffer = [1/2, 513/32768], position = 0\<rparr>,
          isTalking := True\<rparr>"
    using media_payload_handling [OF mg, of False "active_session [1/2] False" ?good,
        unfolded dg sum.case, THEN conjunct2]
    by (simp add: pcm16ToFloat_12 append_eq active_session_def)
  have k: "ws_onmessage True (active_session [1/2] False) ?good
     = (active_session [1/2] False)
         \<lparr>audioWorkletNodeRef := Some \<lparr>buffer = [1/2, 513/32768], position = 0\<rparr>\<rparr>"
    using media_payload_handling [OF mg, of True "active_session [1/2] False" ?good,
        unfolded dg sum.case, THEN conjunct2]
    by (simp add: pcm16ToFloat_12 append_eq active_session_def)
  have l: "isTalking (ws_onmessage True (active_session [1/2] False) ?good) = False"
    by (simp only: k) (simp add: active_session_def)
  show ?thesis using m atob_A a b mg atob_AQI f k l by blast
qed

text \<open>
  Claim C9. For every captured frame, when the socket exists and is open, exactly one
  message is sent: the base64 text of the frame's PCM block with every 16-bit value as
  its low byte followed by its high byte; decoding that text gives these bytes back, two
  for each sample. When the socket is missing or not open, the state is unchanged:
  nothing is sent. The handler has no failing step.
\<close>

theorem uplink_message:
  "(wsRef st = Some ws \<and> readyState ws = OPEN \<longrightarrow>
      onaudioprocess st input
        = st\<lparr>wsRef := Some (ws\<lparr>sent := sent ws @ [btoa (pcm_block_bytes (floatToPcm16 input))]\<rparr>)\<rparr>) \<and>
   (map_option readyState (wsRef st) \<noteq> Some OPEN \<longrightarrow> onaudioprocess st input = st) \<and>
   atob (btoa (pcm_block_bytes (floatToPcm16 input))) = Inr (pcm_block_bytes (floatToPcm16 input)) \<and>
   length (pcm_block_bytes (floatToPcm16 input)) = 2 * length input"
proof -
  have "wsRef st = Some ws \<and> readyState ws = OPEN \<longrightarrow>
      onaudioprocess st input
        = st\<lparr>wsRef := Some (ws\<lparr>sent := sent ws @ [btoa (pcm_block_bytes (floatToPcm16 input))]\<rparr>)\<rparr>"
    by (simp add: onaudioprocess_eq ws_send_def)
  moreover have "map_option readyState (wsRef st) \<noteq> Some OPEN \<longrightarrow> onaudioprocess st input = st"
    unfolding onaudioprocess_eq by (rule impI) (simp only: if_False)
  ultimately show ?thesis
    by (simp only: atob_btoa pcm_block_bytes_length floatToPcm16_length simp_thms)
qed

theorem uplink_message_witness:
  "wsRef (active_session [] False) = Some \<lparr>readyState = OPEN, sent = []\<rparr> \<and>
   onaudioprocess (active_session [] False) [1/4, - 1/4]
     = (active_session [] False)\<lparr>wsRef := Some \<lparr>readyState = OPEN, sent = [''/x8A4A=='']\<rparr>\<rparr> \<and>
   map_option readyState (wsRef ((active_session [] False)\<lparr>wsRef := Some \<lparr>readyState = CLOSING, sent = []\<rparr>\<rparr>))
     \<noteq> Some OPEN \<and>
   onaudioprocess ((active_session [] False)\<lparr>wsRef := Some \<lparr>readyState = CLOSING, sent = []\<rparr>\<rparr>) [1/4, - 1/4]
     = (active_session [] False)\<lparr>wsRef := Some \<lparr>readyState = CLOSING, sent = []\<rparr>\<rparr> \<and>
   atob ''/x8A4A=='' = Inr [255, 31, 0, 224]"
proof -
  let ?open = "active_session [] False"
  let ?closing = "(active_session [] False)\<lparr>wsRef := Some \<lparr>readyState = CLOSING, sent = []\<rparr>\<rparr>"
  have w: "wsRef ?open = Some \<lparr>readyState = OPEN, sent = []\<rparr>"
    by (simp add: active_session_def)
  have n: "map_option readyState (wsRef ?closing) \<noteq> Some OPEN" by simp
  have r: "readyState \<lparr>readyState = OPEN, sent = []\<rparr> = OPEN" by simp
  note o = uplink_message [of ?open "\<lparr>readyState = OPEN, sent = []\<rparr>" "[1/4, - 1/4]"]
  note c = uplink_message [of ?closing "\<lparr>readyState = CLOSING, sent = []\<rparr>" "[1/4, - 1/4]"]
  have t: "btoa (pcm_block_bytes (floatToPcm16 [1/4, - 1/4])) = ''/x8A4A==''"
    by (simp only: quarter_block quarter_bytes quarter_text)
  have "onaudioprocess ?open [1/4, - 1/4]
     = ?open\<lparr>wsRef := Some (\<lparr>readyState = OPEN, sent = []\<rparr>
          \<lparr>sent := sent \<lparr>readyState = OPEN, sent = []\<rparr> @ [''/x8A4A=='']\<rparr>)\<rparr>"
    using o [THEN conjunct1, unfolded t] w r by blast
  then have a: "onaudioprocess ?open [1/4, - 1/4]
     = ?open\<lparr>wsRef := Some \<lparr>readyState = OPEN, sent = [''/x8A4A=='']\<rparr>\<rparr>"
    by simp
  have b: "onaudioprocess ?closing [1/4, - 1/4] = ?closing"
    using c [THEN conjunct2, THEN conjunct1] n by blast
  have d: "atob ''/x8A4A=='' = Inr [255, 31, 0, 224]"
    using o [THEN conjunct2, THEN conjunct2, THEN conjunct1, unfolded t]
    by (simp only: quarter_block quarter_bytes)
  show ?thesis using w a n b d by blast
qed

end
